theory Spec2Isabelle
  imports Complex_Main "HOL-Library.Word" "HOL-Library.AList"
begin

section \<open>Entropy and byte-occurrence analysis (graphs/ent/graph.py)\<close>

text \<open>
  A shallow embedding of \<^verbatim>\<open>src/graphs/ent/graph.py\<close>. Python's unbounded integers
  are \<open>int\<close>; Python's floats are idealised as exact \<open>real\<close> numbers (no rounding);
  every exception the code can raise is a value of \<open>exn\<close> and a function that can
  raise returns \<open>exn + 'a\<close> with \<open>Inl\<close> for the exception. A dictionary is an
  association list in insertion order, as Python iterates it.
\<close>

subsection \<open>Values and exceptions\<close>

text \<open>What \<^verbatim>\<open>json.loads\<close> can return.\<close>

datatype json =
    JNull
  | JBool bool
  | JInt int
  | JFloat real
  | JStr string
  | JList "json list"
  | JObj "(string \<times> json) list"

text \<open>
  The three messages of \<^verbatim>\<open>ArgValidationEx\<close>, each with the values the source
  formats into it: the parse error and the text; the group name and its value; the group
  name and the offending item.
\<close>

datatype arg_msg =
    Error_decoding_json string string
  | Name_not_string_or_bytes_not_list string json
  | Item_in_list_not_an_int string json

datatype exn =
    ArgValidationEx arg_msg
  | TypeError
  | AttributeError
  | ValueError
  | ZeroDivisionError
  | StatisticsError
  | KeyError
  | FileNotFoundError string
  | lief_exception string

type_synonym byte = "8 word"

subsection \<open>The file handle and the chunk stream\<close>

text \<open>
  An open binary file: its bytes and the read position. \<^verbatim>\<open>fh.read(n)\<close> returns
  at most \<open>n\<close> bytes from the position and advances it; \<open>n = -1\<close> reads to the end
  of the file, and any other negative \<open>n\<close> raises \<^verbatim>\<open>ValueError\<close> (read length must
  be non-negative or -1).
\<close>

record file_handle =
  content :: "byte list"
  pos :: nat

definition st_size :: "file_handle \<Rightarrow> int" where
  "st_size fh = int (length (content fh))"

definition read :: "file_handle \<Rightarrow> int \<Rightarrow> exn + byte list \<times> file_handle" where
  "read fh n =
     (if n < - 1 then Inl ValueError
      else
        (let rest = drop (pos fh) (content fh);
             got = (if n < 0 then rest else take (nat n) rest)
         in Inr (got, fh\<lparr>pos := pos fh + length got\<rparr>)))"

text \<open>
  \<^verbatim>\<open>get_chunk\<close> (lines 241-252): read \<open>chunksize\<close> bytes at a time, yield each
  non-empty read as a list of integers, stop at the first empty read. The generator is
  consumed by one \<^verbatim>\<open>for\<close> loop and nothing else reads the handle, so the model
  returns the list of the chunks yielded. Every read has the same size, so a read can
  raise only before the first chunk, and then the stream raises.
\<close>

function get_chunk :: "file_handle \<Rightarrow> int \<Rightarrow> exn + int list list" where
  "get_chunk fh chunksize =
     (case read fh chunksize of
        Inl e \<Rightarrow> Inl e
      | Inr (chunk, fh') \<Rightarrow>
          if chunk \<noteq> [] then
            (case get_chunk fh' chunksize of
               Inl e \<Rightarrow> Inl e
             | Inr rest \<Rightarrow> Inr (map uint chunk # rest))
          else Inr [])"
  by pat_completeness auto
termination
  by (relation "measure (\<lambda>(fh, chunksize). length (content fh) - pos fh)")
     (auto simp: read_def Let_def split: if_splits)

declare get_chunk.simps [simp del]

subsection \<open>Chunk size and offset scale (generate, lines 96-102)\<close>

text \<open>
  \<^verbatim>\<open>-(-fs // chunks)\<close> is floor division, which is \<open>div\<close> on \<open>int\<close>;
  \<^verbatim>\<open>fs / chunks\<close> is true division. Both raise \<^verbatim>\<open>ZeroDivisionError\<close> when
  \<open>chunks\<close> is 0, which the guard lets through for every file size.
  The result is the pair (\<open>chunksize\<close>, \<open>nr_chunksize\<close>).
\<close>

definition chunk_sizes :: "int \<Rightarrow> int \<Rightarrow> exn + (int \<times> real)" where
  "chunk_sizes fs chunks =
     (if chunks > fs then Inr (1, 1)
      else if chunks = 0 then Inl ZeroDivisionError
      else Inr (- ((- fs) div chunks), real_of_int fs / real_of_int chunks))"

subsection \<open>One pass over the chunks (generate, lines 106-132)\<close>

type_synonym ibytes_dict = "(string \<times> int list) list"

type_synonym series_dict = "(string \<times> real list) list"

text \<open>\<^verbatim>\<open>Counter(chunk)[b]\<close>: how often \<open>b\<close> occurs, 0 for a value that does not.\<close>

definition Counter :: "int list \<Rightarrow> int \<Rightarrow> nat" where
  "Counter chunk b = count_list chunk b"

text \<open>True division \<^verbatim>\<open>a / b\<close> on floats.\<close>

definition truediv :: "real \<Rightarrow> real \<Rightarrow> exn + real" where
  "truediv a b = (if b = 0 then Inl ZeroDivisionError else Inr (a / b))"

text \<open>
  \<^verbatim>\<open>statistics.median\<close>: the middle element of the sorted data, the mean of the two
  middle elements when their number is even, \<^verbatim>\<open>StatisticsError\<close> on no data.
\<close>

definition median :: "real list \<Rightarrow> exn + real" where
  "median data =
     (let d = sort data; n = length d
      in if n = 0 then Inl StatisticsError
         else if n mod 2 = 1 then Inr (d ! (n div 2))
         else Inr ((d ! (n div 2 - 1) + d ! (n div 2)) / 2))"

text \<open>
  Lines 126-132: for each group in the order of the dictionary, add up the counts of
  the values of its list (\<open>occurrence_of\<close>, lines 128-130) and append the percentage
  to the group's series.
  \<^verbatim>\<open>byte_ranges[label]\<close> raises \<^verbatim>\<open>KeyError\<close> for a label that is not there.
\<close>

definition occurrence_of :: "(int \<Rightarrow> nat) \<Rightarrow> int list \<Rightarrow> int" where
  "occurrence_of cbytes b_range = fold (\<lambda>b occurrence. occurrence + int (cbytes b)) b_range 0"

fun label_loop :: "(int \<Rightarrow> nat) \<Rightarrow> int list \<Rightarrow> ibytes_dict \<Rightarrow> series_dict \<Rightarrow> exn + series_dict" where
  "label_loop cbytes chunk [] byte_ranges = Inr byte_ranges"
| "label_loop cbytes chunk ((label, b_range) # rest) byte_ranges =
     (let occurrence = occurrence_of cbytes b_range
      in case map_of byte_ranges label of
           None \<Rightarrow> Inl KeyError
         | Some _ \<Rightarrow>
             (case truediv (real_of_int occurrence) (real (length chunk)) of
                Inl e \<Rightarrow> Inl e
              | Inr q \<Rightarrow>
                  label_loop cbytes chunk rest
                    (AList.map_entry label (\<lambda>percentages. percentages @ [q * 100]) byte_ranges)))"

record samples =
  shannon_samples :: "real list"
  prev_ent :: real
  byte_ranges :: series_dict

text \<open>
  The body of the loop over the chunks (lines 116-132). \<^verbatim>\<open>shannon_ent\<close> is
  imported from \<^verbatim>\<open>graphs.helpers\<close> and is a parameter here.
\<close>

definition sample_step ::
  "(int list \<Rightarrow> real) \<Rightarrow> ibytes_dict \<Rightarrow> samples \<Rightarrow> int list \<Rightarrow> exn + samples" where
  "sample_step shannon_ent ibytes st chunk =
     (let real_ent = shannon_ent chunk
      in case median [real_ent, prev_ent st] of
           Inl e \<Rightarrow> Inl e
         | Inr ent \<Rightarrow>
             (let st1 = st\<lparr>prev_ent := real_ent\<rparr>;
                  ent = real_ent;
                  st2 = st1\<lparr>shannon_samples := shannon_samples st1 @ [ent]\<rparr>
              in if length ibytes > 0 then
                   (let cbytes = Counter chunk
                    in case label_loop cbytes chunk ibytes (byte_ranges st2) of
                         Inl e \<Rightarrow> Inl e
                       | Inr br \<Rightarrow> Inr (st2\<lparr>byte_ranges := br\<rparr>))
                 else Inr st2))"

fun sample_loop ::
  "(int list \<Rightarrow> real) \<Rightarrow> ibytes_dict \<Rightarrow> samples \<Rightarrow> int list list \<Rightarrow> exn + samples" where
  "sample_loop shannon_ent ibytes st [] = Inr st"
| "sample_loop shannon_ent ibytes st (chunk # rest) =
     (case sample_step shannon_ent ibytes st chunk of
        Inl e \<Rightarrow> Inl e
      | Inr st' \<Rightarrow> sample_loop shannon_ent ibytes st' rest)"

text \<open>
  The \<^verbatim>\<open>with open(...)\<close> block (lines 92-132) on an open handle: the sizes, the
  empty series per group (no dictionary at all when there are no groups, modelled as
  the empty one), then the loop over \<^verbatim>\<open>get_chunk(fh, chunksize=chunksize)\<close>.
\<close>

definition analysis_pass ::
  "(int list \<Rightarrow> real) \<Rightarrow> file_handle \<Rightarrow> int \<Rightarrow> ibytes_dict \<Rightarrow> exn + (int \<times> real \<times> samples)" where
  "analysis_pass shannon_ent fh chunks ibytes =
     (let fs = st_size fh
      in case chunk_sizes fs chunks of
           Inl e \<Rightarrow> Inl e
         | Inr (chunksize, nr_chunksize) \<Rightarrow>
             (let br = (if length ibytes > 0 then map (\<lambda>key. (key, [])) (map fst ibytes) else [])
              in case get_chunk fh chunksize of
                   Inl e \<Rightarrow> Inl e
                 | Inr cks \<Rightarrow>
                     (case sample_loop shannon_ent ibytes
                             \<lparr>shannon_samples = [], prev_ent = 0, byte_ranges = br\<rparr> cks of
                        Inl e \<Rightarrow> Inl e
                      | Inr st \<Rightarrow> Inr (chunksize, nr_chunksize, st))))"

subsection \<open>Section names (lines 255-258)\<close>

text \<open>\<^verbatim>\<open>str(i)\<close> of an integer: its decimal digits, with a sign when negative.\<close>

fun digits :: "nat \<Rightarrow> string" where
  "digits n =
     (if n < 10 then [''0123456789'' ! n]
      else digits (n div 10) @ [''0123456789'' ! (n mod 10)])"

definition str :: "int \<Rightarrow> string" where
  "str i = (if i < 0 then CHR ''-'' # digits (nat (- i)) else digits (nat i))"

text \<open>
  The argument of a format field is an integer or a string. The format specification
  \<^verbatim>\<open>{:d}\<close> renders an integer in decimal and raises \<^verbatim>\<open>ValueError\<close> (unknown
  format code 'd' for object of type 'str') on a string.
\<close>

datatype pyval = PyInt int | PyStr string

fun format_d :: "pyval \<Rightarrow> exn + string" where
  "format_d (PyInt i) = Inr (str i)"
| "format_d (PyStr s) = Inl ValueError"

text \<open>
  \<^verbatim>\<open>safe_section_name\<close>: a name that is the empty string or \<^verbatim>\<open>None\<close> is replaced by
  \<^verbatim>\<open>'sect_{:d}'.format(str(index))\<close>; any other name is returned as it is.
\<close>

definition safe_section_name :: "string option \<Rightarrow> int \<Rightarrow> exn + string" where
  "safe_section_name s_name index =
     (if s_name = Some [] \<or> s_name = None then
        (case format_d (PyStr (str index)) of
           Inl e \<Rightarrow> Inl e
         | Inr d \<Rightarrow> Inr (''sect_'' @ d))
      else Inr (case s_name of Some s \<Rightarrow> s | None \<Rightarrow> []))"

subsection \<open>Checking the groups of --ibytes (args_validation, lines 79-86)\<close>

text \<open>
  \<^verbatim>\<open>len(v)\<close> and iteration over \<open>v\<close> for a value from \<^verbatim>\<open>json.loads\<close>: defined for
  strings, lists and objects (an object iterates its keys), \<^verbatim>\<open>TypeError\<close> for
  numbers, booleans and \<^verbatim>\<open>None\<close>.
\<close>

fun len :: "json \<Rightarrow> exn + nat" where
  "len (JStr s) = Inr (length s)"
| "len (JList xs) = Inr (length xs)"
| "len (JObj kvs) = Inr (length kvs)"
| "len _ = Inl TypeError"

fun iter :: "json \<Rightarrow> exn + json list" where
  "iter (JStr s) = Inr (map (\<lambda>c. JStr [c]) s)"
| "iter (JList xs) = Inr xs"
| "iter (JObj kvs) = Inr (map (\<lambda>kv. JStr (fst kv)) kvs)"
| "iter _ = Inl TypeError"

text \<open>\<^verbatim>\<open>type(v) == list\<close> and \<^verbatim>\<open>type(v) == int\<close> (a boolean has type \<^verbatim>\<open>bool\<close>).\<close>

fun is_list :: "json \<Rightarrow> bool" where
  "is_list (JList xs) = True"
| "is_list _ = False"

fun is_int :: "json \<Rightarrow> bool" where
  "is_int (JInt i) = True"
| "is_int _ = False"

text \<open>Lines 84-86: the first item that is not an integer raises.\<close>

fun check_items :: "string \<Rightarrow> json list \<Rightarrow> exn + unit" where
  "check_items name [] = Inr ()"
| "check_items name (b # bs) =
     (if \<not> is_int b then Inl (ArgValidationEx (Item_in_list_not_an_int name b))
      else check_items name bs)"

text \<open>
  Lines 79-86. The keys of an object from \<^verbatim>\<open>json.loads\<close> are strings, so
  \<^verbatim>\<open>type(name) == str\<close> is true; \<^verbatim>\<open>or\<close> evaluates its right operand, and with it
  \<^verbatim>\<open>len(bytelist)\<close>, only when the left one is false.
\<close>

fun check_groups :: "(string \<times> json) list \<Rightarrow> exn + unit" where
  "check_groups [] = Inr ()"
| "check_groups ((name, bytelist) # rest) =
     (let name_is_str = True
      in if \<not> (name_is_str \<or> is_list bytelist) then
           Inl (ArgValidationEx (Name_not_string_or_bytes_not_list name bytelist))
         else
           (case len bytelist of
              Inl e \<Rightarrow> Inl e
            | Inr n \<Rightarrow>
                if \<not> n > 0 then
                  Inl (ArgValidationEx (Name_not_string_or_bytes_not_list name bytelist))
                else
                  (case iter bytelist of
                     Inl e \<Rightarrow> Inl e
                   | Inr items \<Rightarrow>
                       (case check_items name items of
                          Inl e \<Rightarrow> Inl e
                        | Inr _ \<Rightarrow> check_groups rest))))"

text \<open>\<^verbatim>\<open>args.ibytes.items()\<close>: only an object has the method.\<close>

fun items :: "json \<Rightarrow> exn + (string \<times> json) list" where
  "items (JObj kvs) = Inr kvs"
| "items _ = Inl AttributeError"

subsection \<open>Offsets and chunk coordinates (lines 144, 191, 202)\<close>

text \<open>
  A file offset is placed on the axis of the series at
  \<^verbatim>\<open>offset / nr_chunksize\<close> (lines 191 and 202); the tick formatter turns an axis
  coordinate back into the offset \<^verbatim>\<open>int(x * nr_chunksize)\<close> (line 144), where
  \<^verbatim>\<open>int\<close> truncates towards zero. The hexadecimal rendering of that integer is
  presentation and is not modelled.
\<close>

definition chunk_index_of :: "real \<Rightarrow> int \<Rightarrow> exn + real" where
  "chunk_index_of nr_chunksize offset = truediv (real_of_int offset) nr_chunksize"

definition offset_of :: "real \<Rightarrow> real \<Rightarrow> real" where
  "offset_of nr_chunksize x = x * nr_chunksize"

definition trunc :: "real \<Rightarrow> int" where
  "trunc x = (if x < 0 then \<lceil>x\<rceil> else \<lfloor>x\<rfloor>)"

definition tick_offset :: "real \<Rightarrow> real \<Rightarrow> int" where
  "tick_offset nr_chunksize x = trunc (offset_of nr_chunksize x)"

subsection \<open>Annotations of an executable (generate, lines 169-216)\<close>

text \<open>
  What the code uses of the parser \<^verbatim>\<open>lief\<close>: \<^verbatim>\<open>lief.parse\<close> returns a binary,
  returns \<^verbatim>\<open>None\<close> (as later versions of the library do for a file they do not
  recognise) or raises; \<^verbatim>\<open>lief.bad_file\<close> is the one exception the code catches.
  Line 179, inside the \<^verbatim>\<open>try\<close>, reads \<^verbatim>\<open>exebin.format\<close>, which raises
  \<^verbatim>\<open>AttributeError\<close> on \<^verbatim>\<open>None\<close>; nothing catches it. A PE binary
  has an entry point, a conversion of virtual addresses to offsets and sections with a
  name (a string or \<^verbatim>\<open>None\<close>) and an offset; any other format has only its name.
\<close>

record pe_section =
  name :: "string option"
  offset :: int

record pe_binary =
  entrypoint :: int
  va_to_offset :: "int \<Rightarrow> int"
  sections :: "pe_section list"

datatype binary = PE pe_binary | Other_format string

datatype lief_error = bad_file string | other_error string

type_synonym annotation = "string \<times> real"

text \<open>
  The loop over \<^verbatim>\<open>enumerate(exebin.sections)\<close> (lines 198-210): the labels drawn
  with their coordinates, and the length of the longest name.
\<close>

fun section_loop ::
  "real \<Rightarrow> (nat \<times> pe_section) list \<Rightarrow> annotation list \<times> nat \<Rightarrow> exn + annotation list \<times> nat" where
  "section_loop nr_chunksize [] acc = Inr acc"
| "section_loop nr_chunksize ((index, sec) # rest) (annotations, longest_section_name) =
     (case safe_section_name (name sec) (int index) of
        Inl e \<Rightarrow> Inl e
      | Inr section_name \<Rightarrow>
          (case chunk_index_of nr_chunksize (offset sec) of
             Inl e \<Rightarrow> Inl e
           | Inr section_offset \<Rightarrow>
               section_loop nr_chunksize rest
                 (annotations @ [(section_name, section_offset)],
                  if length section_name > longest_section_name then length section_name
                  else longest_section_name)))"

text \<open>
  The result of the format-specific part: the annotations, the gap under the title
  and the warnings logged. Debug messages are not recorded.
\<close>

definition annotate ::
  "(string \<Rightarrow> lief_error + binary option) \<Rightarrow> string \<Rightarrow> bool \<Rightarrow> real
     \<Rightarrow> exn + (annotation list \<times> string \<times> string list)" where
  "annotate lief_parse abs_fpath blob nr_chunksize =
     (let title_gap = [CHR 0x0A]
      in if blob then
           Inr ([], title_gap, [''Parsing file as blob - no filetype specific features''])
         else
           (case (case lief_parse abs_fpath of
                    Inr None \<Rightarrow> Inl AttributeError
                  | Inr (Some b) \<Rightarrow> Inr (Some b, [])
                  | Inl (bad_file e) \<Rightarrow>
                      Inr (None, [''Failed to parse with lief, parsing like --blob: '' @ e])
                  | Inl (other_error e) \<Rightarrow> Inl (lief_exception e)) of
              Inl e \<Rightarrow> Inl e
            | Inr (exebin, warnings) \<Rightarrow>
                (case exebin of
                   None \<Rightarrow> Inr ([], title_gap, warnings)
                 | Some (Other_format f) \<Rightarrow> Inr ([], title_gap, warnings)
                 | Some (PE pe) \<Rightarrow>
                     (case chunk_index_of nr_chunksize (va_to_offset pe (entrypoint pe)) of
                        Inl e \<Rightarrow> Inl e
                      | Inr v_ep \<Rightarrow>
                          (case section_loop nr_chunksize (List.enumerate 0 (sections pe))
                                  ([(''EP'', v_ep)], 0) of
                             Inl e \<Rightarrow> Inl e
                           | Inr (annotations, longest_section_name) \<Rightarrow>
                               Inr (annotations,
                                    replicate (longest_section_name div 3) (CHR 0x0A),
                                    warnings))))))"

subsection \<open>generate (lines 90-236)\<close>

text \<open>
  What \<^verbatim>\<open>generate\<close> hands to the plotting library: the entropy series, the
  percentage series per group, the annotations, the scale of the axis, the title and
  the warnings logged on the way.
\<close>

record analysis_result =
  chunksize :: int
  nr_chunksize :: real
  entropy_series :: "real list"
  percentage_series :: series_dict
  annotations :: "annotation list"
  title :: string
  warnings :: "string list"

text \<open>
  The file system is a partial map from paths to contents; opening a path that is not
  there raises. Colours, line styles, legends and \<^verbatim>\<open>showplt\<close> have no part in the
  values computed and are left out.
\<close>

definition generate ::
  "(int list \<Rightarrow> real) \<Rightarrow> (string \<Rightarrow> byte list option)
     \<Rightarrow> (string \<Rightarrow> lief_error + binary option)
     \<Rightarrow> string \<Rightarrow> string \<Rightarrow> bool \<Rightarrow> int \<Rightarrow> ibytes_dict \<Rightarrow> exn + analysis_result" where
  "generate shannon_ent files lief_parse abs_fpath fname blob chunks ibytes =
     (case files abs_fpath of
        None \<Rightarrow> Inl (FileNotFoundError abs_fpath)
      | Some bytes \<Rightarrow>
          (case analysis_pass shannon_ent \<lparr>content = bytes, pos = 0\<rparr> chunks ibytes of
             Inl e \<Rightarrow> Inl e
           | Inr (cs, nr, st) \<Rightarrow>
               (case annotate lief_parse abs_fpath blob nr of
                  Inl e \<Rightarrow> Inl e
                | Inr (anns, title_gap, ws) \<Rightarrow>
                    Inr \<lparr>chunksize = cs,
                         nr_chunksize = nr,
                         entropy_series = shannon_samples st,
                         percentage_series = (if length ibytes > 0 then byte_ranges st else []),
                         annotations = anns,
                         title = ''Binary entropy (sampled over '' @ str cs
                                   @ '' byte chunks): '' @ fname @ title_gap,
                         warnings = ws\<rparr>)))"

subsection \<open>args_validation (lines 55-86)\<close>

text \<open>
  The default of \<^verbatim>\<open>--ibytes\<close> (line 45) and of \<^verbatim>\<open>--chunks\<close> (line 44). The
  text of line 45 lists the 95 numbers from 32 to 126 one by one, separated by a comma
  and a space; the same text is built here from the range.
\<close>

fun join :: "string \<Rightarrow> string list \<Rightarrow> string" where
  "join sep [] = []"
| "join sep [x] = x"
| "join sep (x # y # ys) = x @ sep @ join sep (y # ys)"

definition ibytes_default :: string where
  \<open>ibytes_default =
     ''{"0's": [0], "Printable ASCII": ['' @ join '', '' (map str [32..126])
       @ ''], "Exploit": [44, 144]}''\<close>

definition chunks_default :: int where
  "chunks_default = 750"

record args =
  graphtype :: string
  ibytes :: "string option"
  chunks :: int

text \<open>
  \<^verbatim>\<open>args_validation\<close>. \<^verbatim>\<open>json.loads\<close> is a parameter: it returns the value or
  the message of its \<^verbatim>\<open>JSONDecodeError\<close>; \<^verbatim>\<open>json.loads('{}')\<close> is the empty
  object. So is the name of the matplotlib backend. On success the result is the
  warnings logged and the updated \<^verbatim>\<open>args.ibytes\<close> and \<^verbatim>\<open>args.chunks\<close>.
\<close>

definition args_validation ::
  \<open>(string \<Rightarrow> string + json) \<Rightarrow> string \<Rightarrow> args \<Rightarrow> exn + (string list \<times> json \<times> int)\<close> where
  \<open>args_validation json_loads backend a =
     (let ws = (if \<not> backend = ''TkAgg'' then
                  [backend @ '' matplotlib backend in use. This graph generation was tested with "TkAgg", bugs may lie ahead...'']
                else []);
          a1 = (if graphtype a = ''all'' then a\<lparr>ibytes := Some ibytes_default, chunks := chunks_default\<rparr>
                else a)
      in case (case ibytes a1 of
                 None \<Rightarrow> Inr (JObj [])
               | Some text \<Rightarrow>
                   (case json_loads text of
                      Inl e \<Rightarrow> Inl (ArgValidationEx (Error_decoding_json e text))
                    | Inr v \<Rightarrow> Inr v)) of
           Inl e \<Rightarrow> Inl e
         | Inr parsed \<Rightarrow>
             (case items parsed of
                Inl e \<Rightarrow> Inl e
              | Inr kvs \<Rightarrow>
                  (case check_groups kvs of
                     Inl e \<Rightarrow> Inl e
                   | Inr _ \<Rightarrow> Inr (ws, parsed, chunks a1))))\<close>

section \<open>Properties\<close>

subsection \<open>The chunk stream\<close>

lemma ceil_div_step:
  fixes k r :: nat
  assumes "0 < k" "0 < r"
  shows "Suc ((r - min k r + k - 1) div k) = (r + k - 1) div k"
proof (cases "r \<le> k")
  case True
  obtain r' where r: "r = Suc r'" using assms(2) by (cases r) auto
  have "r' < k" using True r by simp
  then have "(r + k - 1) div k = 1" using r by simp
  then show ?thesis using True assms by (simp add: min_def)
next
  case False
  then have "r + k - 1 = (r - k + k - 1) + k" by simp
  then have "(r + k - 1) div k = Suc ((r - k + k - 1) div k)"
    using assms by (metis div_add_self2 less_numeral_extra(3) Suc_eq_plus1)
  then show ?thesis using False by (simp add: min_def)
qed

lemma read_nonneg:
  "0 \<le> cs \<Longrightarrow>
   read fh cs = Inr (take (nat cs) (drop (pos fh) (content fh)),
                     fh\<lparr>pos := pos fh + length (take (nat cs) (drop (pos fh) (content fh)))\<rparr>)"
  by (simp add: read_def Let_def)

lemma get_chunk_unfold:
  assumes "0 \<le> cs"
  shows "get_chunk fh cs =
           (let c = take (nat cs) (drop (pos fh) (content fh))
            in if c = [] then Inr []
               else (case get_chunk (fh\<lparr>pos := pos fh + length c\<rparr>) cs of
                       Inl e \<Rightarrow> Inl e
                     | Inr rest \<Rightarrow> Inr (map uint c # rest)))"
  by (subst get_chunk.simps) (simp add: read_nonneg[OF assms] Let_def)

lemma get_chunk_stream:
  assumes "0 < cs"
  shows "\<exists>cks. get_chunk fh cs = Inr cks
           \<and> (\<forall>c\<in>set cks. c \<noteq> [] \<and> int (length c) \<le> cs)
           \<and> (\<forall>c\<in>set (butlast cks). int (length c) = cs)
           \<and> concat cks = map uint (drop (pos fh) (content fh))
           \<and> length cks = (length (content fh) - pos fh + nat cs - 1) div nat cs"
proof (induction "length (content fh) - pos fh" arbitrary: fh rule: less_induct)
  case less
  let ?rest = "drop (pos fh) (content fh)"
  let ?c = "take (nat cs) ?rest"
  let ?fh = "fh\<lparr>pos := pos fh + length ?c\<rparr>"
  let ?r = "length (content fh) - pos fh"
  have k: "0 < nat cs" using assms by simp
  have cs0: "0 \<le> cs" using assms by simp
  show ?case
  proof (cases "?c = []")
    case True
    then have rest: "?rest = []" using k by (simp add: take_eq_Nil)
    then have r0: "?r = 0" by simp
    have g: "get_chunk fh cs = Inr []"
      using True by (subst get_chunk_unfold[OF cs0]) (simp add: Let_def)
    have "(?r + nat cs - 1) div nat cs = 0" using r0 k by simp
    then show ?thesis using g rest by simp
  next
    case False
    then have rpos: "0 < ?r" by auto
    have lc: "length ?c = min (nat cs) ?r" by simp
    have lpos: "0 < length ?c" using False by simp
    have "length (content ?fh) - pos ?fh = ?r - length ?c" by simp
    then have smaller: "length (content ?fh) - pos ?fh < ?r"
      using rpos lpos by linarith
    from less[OF smaller] obtain rest where
      rest: "get_chunk ?fh cs = Inr rest"
      and ne: "\<forall>c\<in>set rest. c \<noteq> [] \<and> int (length c) \<le> cs"
      and bl: "\<forall>c\<in>set (butlast rest). int (length c) = cs"
      and cc: "concat rest = map uint (drop (pos ?fh) (content ?fh))"
      and ln: "length rest = (length (content ?fh) - pos ?fh + nat cs - 1) div nat cs"
      by blast
    have g: "get_chunk fh cs = Inr (map uint ?c # rest)"
      using False rest by (subst get_chunk_unfold[OF cs0]) (simp add: Let_def)
    have d: "drop (pos ?fh) (content ?fh) = drop (nat cs) ?rest"
      by (simp add: min_def add.commute)
    have p1: "\<forall>c\<in>set (map uint ?c # rest). c \<noteq> [] \<and> int (length c) \<le> cs"
      using False ne cs0 by auto
    have p2: "\<forall>c\<in>set (butlast (map uint ?c # rest)). int (length c) = cs"
    proof (cases "rest = []")
      case True
      then show ?thesis by simp
    next
      case nonempty: False
      then obtain c' rest' where "rest = c' # rest'" by (cases rest) auto
      then have "concat rest \<noteq> []" using ne by auto
      then have "drop (nat cs) ?rest \<noteq> []" using cc d by simp
      then have "nat cs < length ?rest" by simp
      then have "int (length ?c) = cs" using cs0 by simp
      then show ?thesis using nonempty bl by simp
    qed
    have "concat (map uint ?c # rest) = map uint (?c @ drop (nat cs) ?rest)"
      using cc d by simp
    then have p3: "concat (map uint ?c # rest) = map uint ?rest"
      by (simp only: append_take_drop_id)
    have "length (map uint ?c # rest) = Suc ((?r - min (nat cs) ?r + nat cs - 1) div nat cs)"
      using ln by (simp add: min_def)
    also have "\<dots> = (?r + nat cs - 1) div nat cs"
      using k rpos by (rule ceil_div_step)
    finally have p4: "length (map uint ?c # rest) = (?r + nat cs - 1) div nat cs" .
    show ?thesis using g p1 p2 p3 p4 by blast
  qed
qed

subsection \<open>Counting and the series of a group\<close>

lemma median_pair: "median [a, b] = Inr ((a + b) / 2)"
  by (simp add: median_def Let_def)

lemma map_fst_map_entry: "map fst (AList.map_entry k f xs) = map fst xs"
  by (induction xs) auto

lemma map_other_keys:
  "k \<notin> fst ` set xs \<Longrightarrow> map (\<lambda>(k', v). (k', if k' = k then f v else v)) xs = xs"
  by (induction xs) auto

lemma map_entry_distinct:
  "distinct (map fst xs) \<Longrightarrow>
   AList.map_entry k f xs = map (\<lambda>(k', v). (k', if k' = k then f v else v)) xs"
  by (induction xs) (auto simp: map_other_keys)

lemma occurrence_of_sum: "occurrence_of cbytes bs = int (sum_list (map cbytes bs))"
proof -
  have "fold (\<lambda>b occurrence. occurrence + int (cbytes b)) bs a = a + int (sum_list (map cbytes bs))" for a
    by (induction bs arbitrary: a) auto
  then show ?thesis by (simp add: occurrence_of_def)
qed

lemma sum_indicator_distinct:
  "distinct bs \<Longrightarrow> sum_list (map (\<lambda>b. if x = b then 1 else 0) bs) = (if x \<in> set bs then 1 else (0::nat))"
  by (induction bs) auto

lemma count_sum_distinct:
  "distinct bs \<Longrightarrow> sum_list (map (count_list chunk) bs) = length (filter (\<lambda>x. x \<in> set bs) chunk)"
proof (induction chunk)
  case Nil
  then show ?case by simp
next
  case (Cons x xs)
  have "sum_list (map (count_list (x # xs)) bs)
        = sum_list (map (\<lambda>b. count_list xs b + (if x = b then 1 else 0)) bs)"
    by (rule arg_cong[where f = sum_list]) auto
  also have "\<dots> = sum_list (map (count_list xs) bs) + sum_list (map (\<lambda>b. if x = b then 1 else 0) bs)"
    by (simp add: sum_list_addf)
  also have "\<dots> = length (filter (\<lambda>x. x \<in> set bs) xs) + (if x \<in> set bs then 1 else 0)"
    using Cons by (simp only: sum_indicator_distinct)
  also have "\<dots> = length (filter (\<lambda>x. x \<in> set bs) (x # xs))"
    by simp
  finally show ?case .
qed

lemma label_loop_result:
  assumes "chunk \<noteq> []" "distinct (map fst ib)" "distinct (map fst br)"
    and "fst ` set ib \<subseteq> fst ` set br"
  shows "label_loop cbytes chunk ib br =
           Inr (map (\<lambda>(k, s). (k, case map_of ib k of
                                    None \<Rightarrow> s
                                  | Some b \<Rightarrow> s @ [real_of_int (occurrence_of cbytes b)
                                                  / real (length chunk) * 100])) br)"
  using assms(2-)
proof (induction ib arbitrary: br)
  case Nil
  then show ?case by (simp add: case_prod_unfold)
next
  case (Cons g rest)
  obtain l b where g: "g = (l, b)" by (cases g)
  let ?q = "real_of_int (occurrence_of cbytes b) / real (length chunk)"
  let ?f = "\<lambda>percentages. percentages @ [?q * 100]"
  let ?br = "AList.map_entry l ?f br"
  have l_in: "l \<in> fst ` set br" using Cons.prems g by auto
  then obtain s0 where s0: "map_of br l = Some s0"
    by (metis domD dom_map_of_conv_image_fst)
  have td: "truediv (real_of_int (occurrence_of cbytes b)) (real (length chunk)) = Inr ?q"
    using assms(1) by (simp add: truediv_def)
  have step: "label_loop cbytes chunk (g # rest) br = label_loop cbytes chunk rest ?br"
    by (simp add: g s0 td Let_def)
  have d: "distinct (map fst ?br)" and sub: "fst ` set rest \<subseteq> fst ` set ?br"
    using Cons.prems by (auto simp: map_fst_map_entry simp flip: set_map)
  have l_rest: "map_of rest l = None" using Cons.prems g by (simp add: map_of_eq_None_iff)
  have IH: "label_loop cbytes chunk rest ?br =
           Inr (map (\<lambda>(k, s). (k, case map_of rest k of
                                    None \<Rightarrow> s
                                  | Some b \<Rightarrow> s @ [real_of_int (occurrence_of cbytes b)
                                                  / real (length chunk) * 100])) ?br)"
    using Cons.IH[OF _ d sub] Cons.prems by simp
  show ?case
    unfolding step IH
    by (auto simp: map_entry_distinct[OF Cons.prems(2)] g l_rest case_prod_unfold
             split: option.splits)
qed

lemma label_loop_ok:
  "chunk \<noteq> [] \<Longrightarrow> fst ` set ib \<subseteq> fst ` set br \<Longrightarrow>
   \<exists>br'. label_loop cbytes chunk ib br = Inr br' \<and> map fst br' = map fst br"
proof (induction ib arbitrary: br)
  case Nil
  then show ?case by simp
next
  case (Cons g rest)
  obtain l b where g: "g = (l, b)" by (cases g)
  let ?br = "AList.map_entry l (\<lambda>percentages. percentages @
               [real_of_int (occurrence_of cbytes b) / real (length chunk) * 100]) br"
  have "l \<in> fst ` set br" using Cons.prems g by auto
  then obtain s0 where s0: "map_of br l = Some s0"
    by (metis domD dom_map_of_conv_image_fst)
  have step: "label_loop cbytes chunk (g # rest) br = label_loop cbytes chunk rest ?br"
    using Cons.prems(1) by (simp add: g s0 truediv_def Let_def)
  have keys: "map fst ?br = map fst br" by (rule map_fst_map_entry)
  then have "fst ` set rest \<subseteq> fst ` set ?br"
    using Cons.prems(2) by (metis list.set_map set_subset_Cons subset_trans image_mono)
  from Cons.IH[OF Cons.prems(1) this] show ?case
    unfolding step keys .
qed

lemma sample_step_samples:
  "sample_step se ib st chunk = Inr st' \<Longrightarrow>
   shannon_samples st' = shannon_samples st @ [se chunk]"
  by (auto simp: sample_step_def median_pair Let_def split: if_splits sum.splits)

lemma sample_loop_samples:
  "sample_loop se ib st cks = Inr st' \<Longrightarrow>
   shannon_samples st' = shannon_samples st @ map se cks"
proof (induction cks arbitrary: st)
  case Nil
  then show ?case by simp
next
  case (Cons c cks)
  then obtain st1 where s1: "sample_step se ib st c = Inr st1"
    and s2: "sample_loop se ib st1 cks = Inr st'"
    by (auto split: sum.splits)
  show ?case using Cons.IH[OF s2] sample_step_samples[OF s1] by simp
qed

lemma sample_step_ok:
  assumes "chunk \<noteq> []" "ib \<noteq> [] \<longrightarrow> fst ` set ib \<subseteq> fst ` set (byte_ranges st)"
  shows "\<exists>st'. sample_step se ib st chunk = Inr st' \<and>
           map fst (byte_ranges st') = map fst (byte_ranges st)"
proof (cases "ib = []")
  case True
  then show ?thesis by (simp add: sample_step_def median_pair Let_def)
next
  case False
  with assms(2) have "fst ` set ib \<subseteq> fst ` set (byte_ranges st)" by simp
  from label_loop_ok[OF assms(1) this, of "Counter chunk"]
  obtain br' where "label_loop (Counter chunk) chunk ib (byte_ranges st) = Inr br'"
    and "map fst br' = map fst (byte_ranges st)" by blast
  then show ?thesis using False by (simp add: sample_step_def median_pair Let_def)
qed

lemma sample_loop_ok:
  assumes "\<forall>c\<in>set cks. c \<noteq> []"
    and "ib \<noteq> [] \<longrightarrow> fst ` set ib \<subseteq> fst ` set (byte_ranges st)"
  shows "\<exists>st'. sample_loop se ib st cks = Inr st' \<and>
           map fst (byte_ranges st') = map fst (byte_ranges st)"
  using assms
proof (induction cks arbitrary: st)
  case Nil
  then show ?case by simp
next
  case (Cons c cks)
  from Cons.prems have "c \<noteq> []" by simp
  from sample_step_ok[OF this Cons.prems(2), of se]
  obtain st1 where s1: "sample_step se ib st c = Inr st1"
    and k1: "map fst (byte_ranges st1) = map fst (byte_ranges st)" by blast
  have "ib \<noteq> [] \<longrightarrow> fst ` set ib \<subseteq> fst ` set (byte_ranges st1)"
    using Cons.prems(2) k1 by (metis list.set_map)
  from Cons.IH[OF _ this] Cons.prems(1)
  obtain st' where "sample_loop se ib st1 cks = Inr st'"
    and "map fst (byte_ranges st') = map fst (byte_ranges st1)" by auto
  then show ?case using s1 k1 by simp
qed

lemma sample_step_ranges:
  assumes "chunk \<noteq> []" "ib \<noteq> []" "distinct (map fst ib)" "distinct (map fst (byte_ranges st))"
    and "fst ` set ib \<subseteq> fst ` set (byte_ranges st)"
    and "sample_step se ib st chunk = Inr st'"
  shows "byte_ranges st' =
           map (\<lambda>(k, s). (k, case map_of ib k of
                               None \<Rightarrow> s
                             | Some b \<Rightarrow> s @ [real_of_int (occurrence_of (Counter chunk) b)
                                             / real (length chunk) * 100])) (byte_ranges st)"
  using assms(6) assms(2)
  by (auto simp: sample_step_def median_pair Let_def
        label_loop_result[OF assms(1) assms(3) assms(4) assms(5)])

lemma sample_loop_ranges:
  assumes "\<forall>c\<in>set cks. c \<noteq> []" "ib \<noteq> []" "distinct (map fst ib)"
    and "distinct (map fst (byte_ranges st))"
    and "fst ` set ib \<subseteq> fst ` set (byte_ranges st)"
    and "sample_loop se ib st cks = Inr st'"
  shows "byte_ranges st' =
           map (\<lambda>(k, s). (k, case map_of ib k of
                               None \<Rightarrow> s
                             | Some b \<Rightarrow> s @ map (\<lambda>c. real_of_int (occurrence_of (Counter c) b)
                                                       / real (length c) * 100) cks))
               (byte_ranges st)"
  using assms(1,4,5,6)
proof (induction cks arbitrary: st)
  case Nil
  then show ?case by (simp add: case_prod_unfold split: option.splits) (simp add: map_idI split: option.splits)
next
  case (Cons c cks)
  from Cons.prems(4) obtain st1 where s1: "sample_step se ib st c = Inr st1"
    and s2: "sample_loop se ib st1 cks = Inr st'"
    by (auto split: sum.splits)
  have c: "c \<noteq> []" using Cons.prems(1) by simp
  note r1 = sample_step_ranges[OF c assms(2) assms(3) Cons.prems(2) Cons.prems(3) s1]
  have k1: "map fst (byte_ranges st1) = map fst (byte_ranges st)"
    unfolding r1 by (simp add: case_prod_unfold comp_def)
  have d1: "distinct (map fst (byte_ranges st1))" using Cons.prems(2) k1 by simp
  have sub1: "fst ` set ib \<subseteq> fst ` set (byte_ranges st1)"
    using Cons.prems(3) k1 by (metis list.set_map)
  have "\<forall>c\<in>set cks. c \<noteq> []" using Cons.prems(1) by simp
  note r2 = Cons.IH[OF this d1 sub1 s2]
  show ?case unfolding r2 r1
    by (auto simp: case_prod_unfold split: option.splits)
qed

subsection \<open>Rounding up\<close>

lemma int_ceil_div:
  fixes a b :: int
  assumes "0 < b"
  shows "- ((- a) div b) = (a + b - 1) div b"
proof (cases "a mod b = 0")
  case True
  have "a = b * (a div b)" using True by (metis mult_div_mod_eq add.right_neutral)
  then have "a + b - 1 = b * (a div b) + (b - 1)" by simp
  then have "(a + b - 1) div b = a div b"
    using assms by (intro int_div_pos_eq[where r = "b - 1"]) auto
  then show ?thesis using True assms by (simp add: zdiv_zminus1_eq_if)
next
  case False
  have m: "0 < a mod b" "a mod b < b" using False assms
    by (simp_all add: le_less pos_mod_sign pos_mod_bound)
       (metis le_less pos_mod_sign assms)
  have "a = b * (a div b) + a mod b" by simp
  then have "a + b - 1 = b * (a div b + 1) + (a mod b - 1)"
    by (simp add: algebra_simps)
  then have "(a + b - 1) div b = a div b + 1"
    using assms m by (intro int_div_pos_eq[where r = "a mod b - 1"]) auto
  then show ?thesis using False assms by (simp add: zdiv_zminus1_eq_if)
qed

lemma nat_ceil_div:
  fixes r k :: nat
  assumes "0 < k"
  shows "int ((r + k - 1) div k) = \<lceil>real r / real k\<rceil>"
proof -
  have "\<lceil>real r / real k\<rceil> = \<lceil>real_of_int (int r) / real_of_int (int k)\<rceil>" by simp
  also have "\<dots> = - ((- int r) div int k)" by (rule ceiling_divide_eq_div)
  also have "\<dots> = (int r + int k - 1) div int k" using assms by (simp add: int_ceil_div)
  also have "\<dots> = int ((r + k - 1) div k)" using assms
    by (simp add: zdiv_int of_nat_diff)
  finally show ?thesis by simp
qed

lemma chunk_sizes_value:
  assumes "0 \<le> fs" "1 \<le> n"
  shows "chunk_sizes fs n =
           Inr (if fs > n then \<lceil>real_of_int fs / real_of_int n\<rceil> else 1,
                if n > fs then 1 else real_of_int fs / real_of_int n)"
proof (cases "n > fs")
  case True
  then show ?thesis by (simp add: chunk_sizes_def)
next
  case False
  have c: "\<lceil>real_of_int fs / real_of_int n\<rceil> = - ((- fs) div n)"
    by (rule ceiling_divide_eq_div)
  show ?thesis
  proof (cases "fs = n")
    case True
    then have "- ((- fs) div n) = 1" using assms by (simp add: zdiv_zminus1_eq_if)
    then show ?thesis using True assms by (simp add: chunk_sizes_def)
  next
    case F: False
    then show ?thesis using False assms c by (simp add: chunk_sizes_def)
  qed
qed

lemma chunk_sizes_pos:
  assumes "0 \<le> fs" "1 \<le> n"
  shows "\<exists>cs nr. chunk_sizes fs n = Inr (cs, nr) \<and> 1 \<le> cs \<and> (n > fs \<longrightarrow> cs = 1)"
proof -
  have "1 \<le> \<lceil>real_of_int fs / real_of_int n\<rceil>" if "n < fs"
    using that assms by (simp add: divide_simps)
  then show ?thesis
    using chunk_sizes_value[OF assms] by auto
qed

lemma get_chunk_length_ceiling:
  assumes "1 \<le> cs" "get_chunk fh cs = Inr cks"
  shows "int (length cks) = \<lceil>real (length (content fh) - pos fh) / real_of_int cs\<rceil>"
proof -
  have k: "0 < nat cs" and c: "real (nat cs) = real_of_int cs" using assms(1) by simp_all
  from get_chunk_stream[of cs fh] assms
  have "length cks = (length (content fh) - pos fh + nat cs - 1) div nat cs" by auto
  then show ?thesis
    using nat_ceil_div[OF k, of "length (content fh) - pos fh"] c by simp
qed

subsection \<open>The loop over the chunks returns\<close>

lemma label_loop_no_zero_div:
  "chunk \<noteq> [] \<Longrightarrow> label_loop cbytes chunk ib br \<noteq> Inl ZeroDivisionError"
proof (induction ib arbitrary: br)
  case Nil
  then show ?case by simp
next
  case (Cons g rest)
  obtain l b where g: "g = (l, b)" by (cases g)
  show ?case using Cons
    by (auto simp: g truediv_def Let_def split: option.splits)
qed

lemma sample_step_no_zero_div:
  "chunk \<noteq> [] \<Longrightarrow> sample_step se ib st chunk \<noteq> Inl ZeroDivisionError"
  using label_loop_no_zero_div[of chunk]
  by (auto simp: sample_step_def median_pair Let_def split: sum.splits)

lemma sample_loop_no_zero_div:
  "\<forall>c\<in>set cks. c \<noteq> [] \<Longrightarrow> sample_loop se ib st cks \<noteq> Inl ZeroDivisionError"
proof (induction cks arbitrary: st)
  case Nil
  then show ?case by simp
next
  case (Cons c cks)
  then show ?case
    using sample_step_no_zero_div[of c se ib st]
    by (auto split: sum.splits)
qed

lemma analysis_pass_ok:
  assumes "1 \<le> n"
  shows "\<exists>cs nr st cks. analysis_pass se \<lparr>content = bytes, pos = 0\<rparr> n ib = Inr (cs, nr, st)
           \<and> chunk_sizes (int (length bytes)) n = Inr (cs, nr) \<and> 1 \<le> cs
           \<and> (n > int (length bytes) \<longrightarrow> cs = 1)
           \<and> get_chunk \<lparr>content = bytes, pos = 0\<rparr> cs = Inr cks
           \<and> (\<forall>c\<in>set cks. c \<noteq> [])
           \<and> sample_loop se ib
                 \<lparr>shannon_samples = [], prev_ent = 0,
                  byte_ranges = (if length ib > 0 then map (\<lambda>key. (key, [])) (map fst ib) else [])\<rparr>
                 cks = Inr st
           \<and> shannon_samples st = map se cks
           \<and> map fst (byte_ranges st) = map fst ib"
proof -
  let ?fh = "\<lparr>content = bytes, pos = 0\<rparr>"
  let ?st0 = "\<lparr>shannon_samples = [], prev_ent = 0,
               byte_ranges = (if length ib > 0 then map (\<lambda>key. (key, [])) (map fst ib) else [])\<rparr>"
  from chunk_sizes_pos[of "int (length bytes)" n] assms
  obtain cs nr where cs: "chunk_sizes (int (length bytes)) n = Inr (cs, nr)" "1 \<le> cs"
    "n > int (length bytes) \<longrightarrow> cs = 1" by auto
  from get_chunk_stream[of cs ?fh] cs(2)
  obtain cks where cks: "get_chunk ?fh cs = Inr cks" and ne: "\<forall>c\<in>set cks. c \<noteq> []" by auto
  have keys: "ib \<noteq> [] \<longrightarrow> fst ` set ib \<subseteq> fst ` set (byte_ranges ?st0)"
    by (force simp: image_iff)
  from sample_loop_ok[OF ne keys, of se] obtain st where
    st: "sample_loop se ib ?st0 cks = Inr st"
    and k: "map fst (byte_ranges st) = map fst (byte_ranges ?st0)" by blast
  have k': "map fst (byte_ranges st) = map fst ib" using k by (simp add: comp_def)
  have s: "shannon_samples st = map se cks"
    using sample_loop_samples[OF st] by simp
  have "analysis_pass se ?fh n ib = Inr (cs, nr, st)"
    using cs(1) cks st by (simp add: analysis_pass_def st_size_def Let_def)
  then show ?thesis using cs cks ne st s k' by blast
qed

lemma map_of_map_keyed:
  "map_of (map (\<lambda>(k, s). (k, F k s)) xs) g = map_option (F g) (map_of xs g)"
  by (induction xs) auto

lemma sum_count_disjoint:
  "set bs \<inter> set chunk = {} \<Longrightarrow> sum_list (map (count_list chunk) bs) = 0"
  by (induction bs) (auto simp: count_list_0_iff)

subsection \<open>What the check of the groups accepts\<close>

lemma check_items_ints: "check_items g (map JInt bs) = Inr ()"
  by (induction bs) auto

lemma check_items_only_ints: "check_items g xs = Inr () \<Longrightarrow> \<exists>bs. xs = map JInt bs"
proof (induction xs)
  case Nil
  then show ?case by simp
next
  case (Cons x xs)
  from Cons.prems obtain i where x: "x = JInt i" and r: "check_items g xs = Inr ()"
    by (cases x) (auto split: if_splits)
  from Cons.IH[OF r] obtain bs where "xs = map JInt bs" ..
  then have "x # xs = map JInt (i # bs)" using x by simp
  then show ?case by (rule exI)
qed

lemma check_items_iff: "check_items g xs = Inr () \<longleftrightarrow> (\<exists>bs. xs = map JInt bs)"
  using check_items_ints check_items_only_ints by metis

lemma check_group_iff:
  "(case len v of
      Inl e \<Rightarrow> Inl e
    | Inr n \<Rightarrow>
        if \<not> n > 0 then Inl (ArgValidationEx (Name_not_string_or_bytes_not_list g v))
        else (case iter v of
                Inl e \<Rightarrow> Inl e
              | Inr its \<Rightarrow>
                  (case check_items g its of Inl e \<Rightarrow> Inl e | Inr _ \<Rightarrow> Inr ()))) = Inr ()
   \<longleftrightarrow> (\<exists>bs. bs \<noteq> [] \<and> v = JList (map JInt bs))"
proof (cases v)
  case (JStr s)
  then show ?thesis by (cases s) auto
next
  case (JList xs)
  have "(case check_items g xs of Inl e \<Rightarrow> Inl e | Inr _ \<Rightarrow> Inr ()) = Inr ()
          \<longleftrightarrow> check_items g xs = Inr ()"
    by (auto split: sum.splits)
  then show ?thesis using JList check_items_iff[where g = g and xs = xs] by auto
next
  case (JObj kvs)
  then show ?thesis by (cases kvs) auto
qed auto

lemma check_groups_iff:
  "check_groups kvs = Inr () \<longleftrightarrow> (\<forall>(g, v)\<in>set kvs. \<exists>bs. bs \<noteq> [] \<and> v = JList (map JInt bs))"
proof (induction kvs)
  case Nil
  then show ?case by simp
next
  case (Cons kv kvs)
  obtain g v where kv: "kv = (g, v)" by (cases kv)
  let ?one = "case len v of
      Inl e \<Rightarrow> Inl e
    | Inr n \<Rightarrow>
        if \<not> n > 0 then Inl (ArgValidationEx (Name_not_string_or_bytes_not_list g v))
        else (case iter v of
                Inl e \<Rightarrow> Inl e
              | Inr its \<Rightarrow>
                  (case check_items g its of Inl e \<Rightarrow> Inl e | Inr _ \<Rightarrow> Inr ()))"
  have "check_groups (kv # kvs) = Inr () \<longleftrightarrow> ?one = Inr () \<and> check_groups kvs = Inr ()"
    by (auto simp: kv split: sum.splits if_splits)
  then show ?case using Cons check_group_iff[where v = v and g = g] by (simp add: kv)
qed

section \<open>The claims of the specification\<close>

text \<open>
  C1, as amended. For a file size \<open>fs \<ge> 0\<close> and a requested chunk count
  \<open>n \<ge> 1\<close> the chunk size is \<open>\<lceil>fs / n\<rceil>\<close> when \<open>fs > n\<close> and 1 otherwise; the
  offset scale is the exact quotient \<open>fs / n\<close> when \<open>n \<le> fs\<close>, and 1 (not
  \<open>fs / n\<close>) when \<open>n > fs\<close>, where every chunk is one byte.
\<close>

theorem C1_chunk_sizes:
  assumes "0 \<le> fs" "1 \<le> n"
  shows "chunk_sizes fs n =
           Inr (if fs > n then \<lceil>real_of_int fs / real_of_int n\<rceil> else 1,
                if n > fs then 1 else real_of_int fs / real_of_int n)"
  using assms by (rule chunk_sizes_value)

text \<open>C1, witness: a file of 1000 bytes in 10 chunks, and a file of 3 bytes in 10 chunks.\<close>

theorem C1_chunk_sizes_witness:
  "chunk_sizes 1000 10 = Inr (100, 100) \<and> chunk_sizes 3 10 = Inr (1, 1)"
  using C1_chunk_sizes[of 1000 10] C1_chunk_sizes[of 3 10] by simp

text \<open>
  C1 as stated fails: for 3 bytes and 10 requested chunks the scale is 1, not 3/10.
\<close>

theorem C1_scale_counterexample:
  "chunk_sizes 3 10 = Inr (1, 1) \<and> chunk_sizes 3 10 \<noteq> Inr (1, real_of_int 3 / real_of_int 10)"
  by (simp add: chunk_sizes_def)

text \<open>
  C2. For a requested chunk count \<open>n \<ge> 1\<close> the pass over a freshly opened file
  returns, and the entropy series and the series of every group have
  \<open>\<lceil>fs / chunksize\<rceil>\<close> entries for the rounded chunk size; when \<open>n > fs\<close> the chunk
  size is 1 and every series has one entry per byte. The keys of a dictionary are distinct.
\<close>

theorem C2_series_length:
  assumes "1 \<le> n" "distinct (map fst ib)"
  shows "\<exists>cs nr st. analysis_pass se \<lparr>content = bytes, pos = 0\<rparr> n ib = Inr (cs, nr, st)
           \<and> chunk_sizes (int (length bytes)) n = Inr (cs, nr)
           \<and> int (length (shannon_samples st)) = \<lceil>real (length bytes) / real_of_int cs\<rceil>
           \<and> map fst (byte_ranges st) = map fst ib
           \<and> (\<forall>(g, s)\<in>set (byte_ranges st).
                  int (length s) = \<lceil>real (length bytes) / real_of_int cs\<rceil>)
           \<and> (n > int (length bytes) \<longrightarrow>
                  cs = 1 \<and> length (shannon_samples st) = length bytes
                  \<and> (\<forall>(g, s)\<in>set (byte_ranges st). length s = length bytes))"
proof -
  let ?fh = "\<lparr>content = bytes, pos = 0\<rparr>"
  let ?st0 = "\<lparr>shannon_samples = [], prev_ent = 0,
               byte_ranges = (if length ib > 0 then map (\<lambda>key. (key, [])) (map fst ib) else [])\<rparr>"
  from analysis_pass_ok[OF assms(1), of se bytes ib]
  obtain cs nr st cks where ap: "analysis_pass se ?fh n ib = Inr (cs, nr, st)"
    and cs: "chunk_sizes (int (length bytes)) n = Inr (cs, nr)" "1 \<le> cs"
      "n > int (length bytes) \<longrightarrow> cs = 1"
    and cks: "get_chunk ?fh cs = Inr cks"
    and ne: "\<forall>c\<in>set cks. c \<noteq> []"
    and loop: "sample_loop se ib ?st0 cks = Inr st"
    and s: "shannon_samples st = map se cks"
    and k: "map fst (byte_ranges st) = map fst ib" by blast
  let ?N = "\<lceil>real (length bytes) / real_of_int cs\<rceil>"
  have len: "int (length cks) = ?N"
    using get_chunk_length_ceiling[OF cs(2) cks] by simp
  have l1: "int (length (shannon_samples st)) = ?N" using s len by simp
  have l2: "\<forall>(g, s)\<in>set (byte_ranges st). int (length s) = ?N"
  proof (cases "ib = []")
    case True
    then show ?thesis using k by simp
  next
    case False
    have d: "distinct (map fst (byte_ranges ?st0))" using assms(2) False by (simp add: comp_def)
    have sub: "fst ` set ib \<subseteq> fst ` set (byte_ranges ?st0)" using False by (force simp: image_iff)
    note r = sample_loop_ranges[OF ne False assms(2) d sub loop]
    have in_ib: False if "(g, b) \<in> set ib" "map_of ib g = None" for g b
      using weak_map_of_SomeI[OF that(1)] that(2) by auto
    show ?thesis unfolding r using False len
      by (auto split: option.splits dest: in_ib)
  qed
  have l3: "n > int (length bytes) \<longrightarrow>
              cs = 1 \<and> length (shannon_samples st) = length bytes
              \<and> (\<forall>(g, s)\<in>set (byte_ranges st). length s = length bytes)"
  proof
    assume "n > int (length bytes)"
    then have c1: "cs = 1" using cs(3) by simp
    then have "?N = int (length bytes)" by simp
    then show "cs = 1 \<and> length (shannon_samples st) = length bytes
              \<and> (\<forall>(g, s)\<in>set (byte_ranges st). length s = length bytes)"
      using l1 l2 c1 by auto
  qed
  show ?thesis using ap cs(1) l1 k l2 l3 by blast
qed

text \<open>C2, witness: a file of three bytes, in 2 and in 10 requested chunks.\<close>

theorem C2_series_length_witness:
  "analysis_pass (\<lambda>c. 0) \<lparr>content = [0, 0, 1], pos = 0\<rparr> 2 [(''z'', [0])]
     = Inr (2, 3 / 2,
            \<lparr>shannon_samples = [0, 0], prev_ent = 0, byte_ranges = [(''z'', [100, 0])]\<rparr>)
   \<and> analysis_pass (\<lambda>c. 0) \<lparr>content = [0, 0, 1], pos = 0\<rparr> 10 [(''z'', [0])]
     = Inr (1, 1,
            \<lparr>shannon_samples = [0, 0, 0], prev_ent = 0, byte_ranges = [(''z'', [100, 100, 0])]\<rparr>)"
  using C2_series_length[of 2 "[(''z'', [0])]" "\<lambda>c. 0" "[0, 0, 1]"]
        C2_series_length[of 10 "[(''z'', [0])]" "\<lambda>c. 0" "[0, 0, 1]"]
  by (simp add: analysis_pass_def chunk_sizes_def st_size_def get_chunk.simps read_def
        sample_step_def median_def Let_def Counter_def occurrence_of_def truediv_def)

text \<open>
  C3, as amended. For a non-empty chunk and a group \<open>g\<close> of the dictionary, one step of
  the loop returns and appends to the series of \<open>g\<close> the sum, over the entries of the
  list of \<open>g\<close>, of the number of occurrences of the entry in the chunk, divided by the
  length of the chunk, times 100. When the list has no repeated value that sum is the
  number of bytes of the chunk whose value is in the list; when no value of the list
  occurs in the chunk the sum, and the percentage, is 0.
\<close>

theorem C3_percentage_appended:
  assumes "chunk \<noteq> []" "distinct (map fst ib)" "map fst (byte_ranges st) = map fst ib"
    and "(g, b_range) \<in> set ib"
  shows "\<exists>st' s. sample_step se ib st chunk = Inr st'
           \<and> map_of (byte_ranges st) g = Some s
           \<and> map_of (byte_ranges st') g =
               Some (s @ [real (sum_list (map (count_list chunk) b_range))
                          / real (length chunk) * 100])
           \<and> (distinct b_range \<longrightarrow>
                 sum_list (map (count_list chunk) b_range)
                   = length (filter (\<lambda>x. x \<in> set b_range) chunk))
           \<and> (set b_range \<inter> set chunk = {} \<longrightarrow>
                 sum_list (map (count_list chunk) b_range) = 0)"
proof -
  have ne: "ib \<noteq> []" using assms(4) by auto
  have d: "distinct (map fst (byte_ranges st))" using assms(2,3) by simp
  have "set (map fst ib) = set (map fst (byte_ranges st))" using assms(3) by simp
  then have sub: "fst ` set ib \<subseteq> fst ` set (byte_ranges st)"
    by (simp only: set_map)
  from sample_step_ok[OF assms(1), of ib st se] sub
  obtain st' where st': "sample_step se ib st chunk = Inr st'" by blast
  note r = sample_step_ranges[OF assms(1) ne assms(2) d sub st']
  have "g \<in> fst ` set (byte_ranges st)" using sub assms(4) by force
  then obtain s where s: "map_of (byte_ranges st) g = Some s"
    by (metis domD dom_map_of_conv_image_fst)
  have b: "map_of ib g = Some b_range" using assms(2,4) by (rule map_of_is_SomeI)
  have occ: "real_of_int (occurrence_of (Counter chunk) b_range)
               = real (sum_list (map (count_list chunk) b_range))"
  proof -
    have "Counter chunk = count_list chunk" by (rule ext) (simp add: Counter_def)
    then show ?thesis by (simp add: occurrence_of_sum)
  qed
  have v: "map_of (byte_ranges st') g =
             Some (s @ [real (sum_list (map (count_list chunk) b_range))
                        / real (length chunk) * 100])"
    unfolding r map_of_map_keyed by (simp add: s b occ)
  have dct: "distinct b_range \<longrightarrow>
               sum_list (map (count_list chunk) b_range)
                 = length (filter (\<lambda>x. x \<in> set b_range) chunk)"
    by (simp add: count_sum_distinct)
  have dj: "set b_range \<inter> set chunk = {} \<longrightarrow>
              sum_list (map (count_list chunk) b_range) = 0"
    by (simp add: sum_count_disjoint)
  show ?thesis
    by (intro exI conjI) (rule st', rule s, rule v, rule dct, rule dj)
qed

text \<open>C3, witness: a chunk of four bytes, a group with matches and a group with none.\<close>

theorem C3_percentage_witness:
  "sample_step (\<lambda>c. 0) [(''z'', [0]), (''e'', [44, 144])]
       \<lparr>shannon_samples = [], prev_ent = 0, byte_ranges = [(''z'', []), (''e'', [])]\<rparr>
       [0, 0, 1, 7]
     = Inr \<lparr>shannon_samples = [0], prev_ent = 0, byte_ranges = [(''z'', [50]), (''e'', [0])]\<rparr>"
  using C3_percentage_appended[of "[0, 0, 1, 7]" "[(''z'', [0]), (''e'', [44, 144])]"
          "\<lparr>shannon_samples = [], prev_ent = 0, byte_ranges = [(''z'', []), (''e'', [])]\<rparr>"
          "''z''" "[0]" "\<lambda>c. 0"]
        C3_percentage_appended[of "[0, 0, 1, 7]" "[(''z'', [0]), (''e'', [44, 144])]"
          "\<lparr>shannon_samples = [], prev_ent = 0, byte_ranges = [(''z'', []), (''e'', [])]\<rparr>"
          "''e''" "[44, 144]" "\<lambda>c. 0"]
  by (simp add: sample_step_def median_def Let_def Counter_def occurrence_of_def truediv_def)

text \<open>
  C3 as stated fails for a list with a repeated value: for the chunk \<open>[0]\<close> and the
  group \<open>[0, 0]\<close> the value appended is 200, not 100.
\<close>

theorem C3_repeated_value_counterexample:
  "label_loop (Counter [0]) [0] [(''g'', [0, 0])] [(''g'', [])] = Inr [(''g'', [200])]
   \<and> label_loop (Counter [0]) [0] [(''g'', [0, 0])] [(''g'', [])]
       \<noteq> Inr [(''g'', [real (length (filter (\<lambda>x. x \<in> set [0, 0]) [0::int]))
                          / real (length [0::int]) * 100])]"
  by (simp add: Counter_def occurrence_of_def truediv_def Let_def)

text \<open>
  C4. For an empty or absent section name at index 2 the code does not return the
  label \<open>sect_2\<close>: the format field \<open>{:d}\<close> is given the string \<open>str(index)\<close> and raises
  \<open>ValueError\<close>.
\<close>

theorem C4_fallback_name_raises:
  "safe_section_name (Some []) 2 = Inl ValueError \<and> safe_section_name None 2 = Inl ValueError"
  by (simp add: safe_section_name_def)

text \<open>
  C5, as amended. Validation does not look at the range of the integers: a text that
  is validated (the graph type is not \<open>all\<close>) and parses to an object is accepted
  exactly when the value of every group is a non-empty list of integers, whatever the
  integers are. So for every accepted specification every value of every group is an
  integer, not necessarily in [0, 255].
\<close>

theorem C5_accepted_iff_int_lists:
  assumes "graphtype a \<noteq> ''all''" "ibytes a = Some text" "jl text = Inr (JObj kvs)"
  shows "(\<exists>ws. args_validation jl be a = Inr (ws, JObj kvs, chunks a))
         \<longleftrightarrow> (\<forall>(g, v)\<in>set kvs. \<exists>bs. bs \<noteq> [] \<and> v = JList (map JInt bs))"
proof -
  have "(\<exists>ws. args_validation jl be a = Inr (ws, JObj kvs, chunks a))
          \<longleftrightarrow> check_groups kvs = Inr ()"
    using assms by (auto simp: args_validation_def Let_def split: sum.splits)
  then show ?thesis by (simp add: check_groups_iff)
qed

text \<open>C5, witness: two groups of integers are accepted (with the warning of another backend).\<close>

theorem C5_accepted_witness:
  \<open>args_validation (\<lambda>t. Inr (JObj [(''0s'', JList [JInt 0]), (''Exploit'', JList [JInt 44, JInt 144])]))
     ''Agg'' \<lparr>graphtype = ''ent'', ibytes = Some ''{"0s": [0], "Exploit": [44, 144]}'', chunks = 750\<rparr>
   = Inr ([''Agg matplotlib backend in use. This graph generation was tested with "TkAgg", bugs may lie ahead...''],
          JObj [(''0s'', JList [JInt 0]), (''Exploit'', JList [JInt 44, JInt 144])], 750)\<close>
  using C5_accepted_iff_int_lists[of
          \<open>\<lparr>graphtype = ''ent'', ibytes = Some ''{"0s": [0], "Exploit": [44, 144]}'', chunks = 750\<rparr>\<close>
          \<open>''{"0s": [0], "Exploit": [44, 144]}''\<close>
          "\<lambda>t. Inr (JObj [(''0s'', JList [JInt 0]), (''Exploit'', JList [JInt 44, JInt 144])])"
          "[(''0s'', JList [JInt 0]), (''Exploit'', JList [JInt 44, JInt 144])]" "''Agg''"]
  by (simp add: args_validation_def)

text \<open>
  C5 as stated fails: the specification with the group \<open>[300, -1]\<close> is accepted.
\<close>

theorem C5_out_of_range_counterexample:
  \<open>args_validation (\<lambda>t. Inr (JObj [(''g'', JList [JInt 300, JInt (- 1)])]))
     ''TkAgg'' \<lparr>graphtype = ''ent'', ibytes = Some ''{"g": [300, -1]}'', chunks = 750\<rparr>
   = Inr ([], JObj [(''g'', JList [JInt 300, JInt (- 1)])], 750)\<close>
  by (simp add: args_validation_def)

text \<open>
  C6. A group whose value is a number is not reported as a validation error: the test
  of line 81 lets it through to \<open>len\<close>, which raises \<open>TypeError\<close>.
\<close>

theorem C6_non_list_value_raises_type_error:
  \<open>args_validation (\<lambda>t. Inr (JObj [(''g'', JInt 5)]))
     ''TkAgg'' \<lparr>graphtype = ''ent'', ibytes = Some ''{"g": 5}'', chunks = 750\<rparr>
   = Inl TypeError\<close>
  by (simp add: args_validation_def)

text \<open>
  C7, as amended. When the file opens, the chunk count is at least 1 and the parser
  fails by raising \<open>bad_file\<close>, the one failure the code catches, generate in
  format-aware mode returns a result: no annotations, the one warning of the failed
  parse, and the entropy series and the series of the groups of the whole file.
\<close>

theorem C7_parse_failure_degrades:
  assumes "files p = Some bytes" "1 \<le> n" "lief_parse p = Inl (bad_file e)"
  shows "\<exists>r cks. generate se files lief_parse p fname False n ib = Inr r
           \<and> annotations r = []
           \<and> warnings r = [''Failed to parse with lief, parsing like --blob: '' @ e]
           \<and> chunk_sizes (int (length bytes)) n = Inr (chunksize r, nr_chunksize r)
           \<and> get_chunk \<lparr>content = bytes, pos = 0\<rparr> (chunksize r) = Inr cks
           \<and> entropy_series r = map se cks
           \<and> map fst (percentage_series r) = map fst ib"
proof -
  from analysis_pass_ok[OF assms(2), of se bytes ib]
  obtain cs nr st cks where
    ap: "analysis_pass se \<lparr>content = bytes, pos = 0\<rparr> n ib = Inr (cs, nr, st)"
    and cs: "chunk_sizes (int (length bytes)) n = Inr (cs, nr)"
    and cks: "get_chunk \<lparr>content = bytes, pos = 0\<rparr> cs = Inr cks"
    and s: "shannon_samples st = map se cks"
    and k: "map fst (byte_ranges st) = map fst ib" by blast
  have an: "annotate lief_parse p False nr
              = Inr ([], [CHR 0x0A], [''Failed to parse with lief, parsing like --blob: '' @ e])"
    using assms(3) by (simp add: annotate_def)
  let ?r = "\<lparr>chunksize = cs, nr_chunksize = nr, entropy_series = shannon_samples st,
             percentage_series = (if length ib > 0 then byte_ranges st else []),
             annotations = [],
             title = ''Binary entropy (sampled over '' @ str cs
                       @ '' byte chunks): '' @ fname @ [CHR 0x0A],
             warnings = [''Failed to parse with lief, parsing like --blob: '' @ e]\<rparr>"
  have g: "generate se files lief_parse p fname False n ib = Inr ?r"
    using assms(1) ap an by (simp add: generate_def)
  have "map fst (percentage_series ?r) = map fst ib" using k by simp
  then show ?thesis using g cs cks s by (intro exI[of _ ?r] exI[of _ cks]) simp
qed

text \<open>C7, witness: a file of three bytes that the parser rejects.\<close>

theorem C7_parse_failure_witness:
  "generate (\<lambda>c. 0) (\<lambda>p. Some [0, 0, 1]) (\<lambda>p. Inl (bad_file ''not a binary''))
      ''/tmp/f'' ''f'' False 2 [(''z'', [0])]
   = Inr \<lparr>chunksize = 2, nr_chunksize = 3 / 2, entropy_series = [0, 0],
          percentage_series = [(''z'', [100, 0])], annotations = [],
          title = ''Binary entropy (sampled over 2 byte chunks): f'' @ [CHR 0x0A],
          warnings = [''Failed to parse with lief, parsing like --blob: not a binary'']\<rparr>"
  using C7_parse_failure_degrades[of "\<lambda>p. Some [0, 0, 1]" "''/tmp/f''" "[0, 0, 1]" 2
          "\<lambda>p. Inl (bad_file ''not a binary'')" "''not a binary''" "\<lambda>c. 0" "''f''" "[(''z'', [0])]"]
  by (simp add: generate_def annotate_def analysis_pass_def chunk_sizes_def st_size_def
        get_chunk.simps read_def sample_step_def median_def Let_def Counter_def
        occurrence_of_def truediv_def str_def)

text \<open>
  C7 as stated fails: a parse failure that is not \<open>bad_file\<close> aborts generate. Another
  exception of the parser propagates, and a parser that returns \<open>None\<close> makes line 179
  raise \<open>AttributeError\<close>; in both cases no result is returned.
\<close>

theorem C7_other_failure_counterexample:
  "generate (\<lambda>c. 0) (\<lambda>p. Some [0, 0, 1]) (\<lambda>p. Inl (other_error ''corrupted''))
      ''/tmp/f'' ''f'' False 2 [(''z'', [0])]
     = Inl (lief_exception ''corrupted'')
   \<and> generate (\<lambda>c. 0) (\<lambda>p. Some [0, 0, 1]) (\<lambda>p. Inr None)
      ''/tmp/f'' ''f'' False 2 [(''z'', [0])]
     = Inl AttributeError"
  by (simp add: generate_def annotate_def analysis_pass_def chunk_sizes_def st_size_def
        get_chunk.simps read_def sample_step_def median_def Let_def Counter_def
        occurrence_of_def truediv_def)

text \<open>
  C8. For a nonzero scale the coordinate of an offset is \<open>offset / scale\<close>, the offset
  of a coordinate is \<open>coordinate * scale\<close>, and converting an offset to a coordinate
  and back gives the offset, also after the truncation of the tick formatter.
\<close>

theorem C8_offset_roundtrip:
  assumes "nr \<noteq> 0"
  shows "chunk_index_of nr off = Inr (real_of_int off / nr)
       \<and> offset_of nr (real_of_int off / nr) = real_of_int off
       \<and> tick_offset nr (real_of_int off / nr) = off"
  using assms by (simp add: chunk_index_of_def truediv_def offset_of_def tick_offset_def trunc_def)

text \<open>C8, witness: scale 5/2 and offset 10.\<close>

theorem C8_offset_roundtrip_witness:
  "chunk_index_of (5 / 2) 10 = Inr 4 \<and> offset_of (5 / 2) 4 = 10 \<and> tick_offset (5 / 2) 4 = 10"
  using C8_offset_roundtrip[of "5 / 2" 10] by simp

text \<open>
  C9. With a positive chunk size, every chunk of the stream is non-empty and at most
  \<open>cs\<close> long, every chunk but the last is exactly \<open>cs\<close> long, the chunks together
  are the bytes of the file from the read position on, and the loop over them never
  divides by a zero chunk length.
\<close>

theorem C9_chunks_nonempty_bounded:
  assumes "0 < cs"
  shows "\<exists>cks. get_chunk fh cs = Inr cks
       \<and> (\<forall>c\<in>set cks. c \<noteq> [] \<and> int (length c) \<le> cs)
       \<and> (\<forall>c\<in>set (butlast cks). int (length c) = cs)
       \<and> concat cks = map uint (drop (pos fh) (content fh))
       \<and> (\<forall>se ib st. sample_loop se ib st cks \<noteq> Inl ZeroDivisionError)"
proof -
  from get_chunk_stream[OF assms, of fh] obtain cks where
    g: "get_chunk fh cs = Inr cks"
    and le: "\<forall>c\<in>set cks. c \<noteq> [] \<and> int (length c) \<le> cs"
    and bl: "\<forall>c\<in>set (butlast cks). int (length c) = cs"
    and cc: "concat cks = map uint (drop (pos fh) (content fh))" by blast
  have ne: "\<forall>c\<in>set cks. c \<noteq> []" using le by simp
  have zd: "\<forall>se ib st. sample_loop se ib st cks \<noteq> Inl ZeroDivisionError"
    using sample_loop_no_zero_div[OF ne] by blast
  show ?thesis using g le bl cc zd by blast
qed

text \<open>C9, witness: three bytes read two at a time.\<close>

theorem C9_chunks_witness:
  "get_chunk \<lparr>content = [1, 2, 3], pos = 0\<rparr> 2 = Inr [[1, 2], [3]]"
  using C9_chunks_nonempty_bounded[of 2 "\<lparr>content = [1, 2, 3], pos = 0\<rparr>"]
  by (simp add: get_chunk.simps read_def)

text \<open>
  C10. For every sequence of chunks, whenever the loop returns, the entropy series it
  leaves is the series it started with followed by \<open>shannon_ent\<close> of each chunk in
  order. It does return when the chunks are non-empty and the series of the groups have
  the keys of the groups, as generate builds them; and the previous entropy, which
  enters only the median, has no effect on the series.
\<close>

theorem C10_entropy_series_is_map:
  "(\<forall>st'. sample_loop se ib st cks = Inr st'
          \<longrightarrow> shannon_samples st' = shannon_samples st @ map se cks)
   \<and> ((\<forall>c\<in>set cks. c \<noteq> []) \<and> (ib \<noteq> [] \<longrightarrow> fst ` set ib \<subseteq> fst ` set (byte_ranges st))
        \<longrightarrow> (\<exists>st'. sample_loop se ib st cks = Inr st'
               \<and> shannon_samples st' = shannon_samples st @ map se cks
               \<and> (\<forall>p. \<exists>st''. sample_loop se ib (st\<lparr>prev_ent := p\<rparr>) cks = Inr st''
                        \<and> shannon_samples st'' = shannon_samples st')))"
proof (intro conjI impI allI)
  fix st'
  assume "sample_loop se ib st cks = Inr st'"
  then show "shannon_samples st' = shannon_samples st @ map se cks"
    by (rule sample_loop_samples)
next
  assume a: "(\<forall>c\<in>set cks. c \<noteq> []) \<and> (ib \<noteq> [] \<longrightarrow> fst ` set ib \<subseteq> fst ` set (byte_ranges st))"
  then have ne: "\<forall>c\<in>set cks. c \<noteq> []"
    and keys: "ib \<noteq> [] \<longrightarrow> fst ` set ib \<subseteq> fst ` set (byte_ranges st)" by simp_all
  from sample_loop_ok[OF ne keys, of se] obtain st' where
    r: "sample_loop se ib st cks = Inr st'" by blast
  have s: "shannon_samples st' = shannon_samples st @ map se cks"
    using sample_loop_samples[OF r] .
  have "\<exists>st''. sample_loop se ib (st\<lparr>prev_ent := p\<rparr>) cks = Inr st''
          \<and> shannon_samples st'' = shannon_samples st'" for p
  proof -
    have "ib \<noteq> [] \<longrightarrow> fst ` set ib \<subseteq> fst ` set (byte_ranges (st\<lparr>prev_ent := p\<rparr>))"
      using keys by simp
    from sample_loop_ok[OF ne this, of se] obtain st'' where
      r': "sample_loop se ib (st\<lparr>prev_ent := p\<rparr>) cks = Inr st''" by blast
    show ?thesis using r' sample_loop_samples[OF r'] s by simp
  qed
  then show "\<exists>st'. sample_loop se ib st cks = Inr st'
               \<and> shannon_samples st' = shannon_samples st @ map se cks
               \<and> (\<forall>p. \<exists>st''. sample_loop se ib (st\<lparr>prev_ent := p\<rparr>) cks = Inr st''
                        \<and> shannon_samples st'' = shannon_samples st')"
    using r s by blast
qed

text \<open>C10, witness: two chunks, with the length of a chunk standing in for its entropy.\<close>

theorem C10_entropy_series_witness:
  "sample_loop (\<lambda>c. real (length c)) [(''z'', [0])]
       \<lparr>shannon_samples = [], prev_ent = 0, byte_ranges = [(''z'', [])]\<rparr> [[0, 1], [2]]
     = Inr \<lparr>shannon_samples = [2, 1], prev_ent = 1, byte_ranges = [(''z'', [50, 0])]\<rparr>"
  using C10_entropy_series_is_map[where cks = "[[0, 1], [2]]" and ib = "[(''z'', [0])]"
          and st = "\<lparr>shannon_samples = [], prev_ent = 0, byte_ranges = [(''z'', [])]\<rparr>"
          and se = "\<lambda>c. real (length c)"]
  by (simp add: sample_step_def median_def Let_def Counter_def occurrence_of_def truediv_def)

end
